theory Spec2Isabelle
  imports Main
begin

section \<open>wcat: the program of initial-utilities/wcat/wcat.c\<close>

text \<open>
  The program is a single \<^verbatim>\<open>main\<close>: it opens each argument in turn with \<^verbatim>\<open>fopen\<close>,
  copies it to standard output with a loop of \<^verbatim>\<open>fgets\<close> and \<^verbatim>\<open>printf("%s", line)\<close>, and
  closes it. The model keeps the C library calls as functions of their own and threads
  the outside world (standard output and a log of the library calls made) through them.
  A C \<^verbatim>\<open>char\<close> is a \<^typ>\<open>char\<close>: eight bits, any value.
\<close>

subsection \<open>Bytes, the file system, the world\<close>

abbreviation NUL :: char where
  "NUL \<equiv> CHR 0x00"

abbreviation newline :: char where
  "newline \<equiv> CHR 0x0A"

type_synonym path = string

text \<open>
  The file system as \<^verbatim>\<open>fopen(path, "r")\<close> sees it: the bytes of the file, or \<open>None\<close>
  when the open fails for whatever reason. An open stream is the list of the bytes not
  read yet; reading it does not fail, it ends.
\<close>

type_synonym filesystem = "path \<Rightarrow> char list option"

text \<open>
  The library calls the program makes, in the order it makes them.
  \<open>Fgets p k\<close>: a call of \<^verbatim>\<open>fgets\<close> on the stream of \<open>p\<close> that took \<open>k\<close> bytes from it
  (\<open>0\<close>: the call returned \<^verbatim>\<open>NULL\<close>). \<open>Printf_s buf\<close>: a call
  \<^verbatim>\<open>printf("%s", line)\<close> with the buffer holding \<open>buf\<close>. \<open>Printf_msg\<close>: the call that
  prints the diagnostic.
\<close>

datatype event =
    Fopen path
  | Fopen_failed path
  | Fgets path nat
  | Printf_s "char list"
  | Printf_msg
  | Fclose path

record world =
  out :: "char list"
  log :: "event list"

definition w0 :: world where
  "w0 = \<lparr>out = [], log = []\<rparr>"

definition emit :: "event \<Rightarrow> world \<Rightarrow> world" where
  "emit e w = w\<lparr>log := log w @ [e]\<rparr>"

text \<open>
  The one way the program can leave defined behaviour: \<^verbatim>\<open>printf("%s", line)\<close> on a buffer
  that holds no terminator reads past its end.
\<close>

datatype fault = Out_of_bounds

subsection \<open>The library calls\<close>

definition MAX_LINE_LENGTH :: nat where
  "MAX_LINE_LENGTH = 1000"

text \<open>
  \<open>read_chars k stream\<close>: the bytes a line read takes from the stream when it may take at
  most \<open>k\<close>: it stops after a newline (which it keeps), at the end of the file, or after
  \<open>k\<close> bytes.
\<close>

fun read_chars :: "nat \<Rightarrow> char list \<Rightarrow> char list" where
  "read_chars 0 cs = []"
| "read_chars (Suc k) [] = []"
| "read_chars (Suc k) (c # cs) = (if c = newline then [c] else c # read_chars k cs)"

text \<open>
  \<^verbatim>\<open>fgets(s, n, stream)\<close> (ISO C 7.21.7.2): reads at most \<open>n - 1\<close> bytes into \<open>s\<close> and
  writes a terminator right after the last byte read; at the end of the file it returns
  \<^verbatim>\<open>NULL\<close> and leaves \<open>s\<close> as it was. The stream is the list of bytes not read yet. The
  result is the buffer and the stream after the call. The bytes of \<open>s\<close> behind the
  terminator keep their old values. The array \<open>s\<close> has at least \<open>n\<close> bytes wherever the
  program calls it, so that the bytes written replace as many bytes of \<open>s\<close>.
\<close>

definition fgets :: "char list \<Rightarrow> nat \<Rightarrow> char list \<Rightarrow> (char list \<times> char list) option" where
  "fgets s n stream =
     (if stream = [] then None
      else let got = read_chars (n - 1) stream
           in Some (got @ NUL # drop (length got + 1) s, drop (length got) stream))"

text \<open>
  The string \<^verbatim>\<open>%s\<close> prints: the bytes before the first terminator. A buffer without a
  terminator is read out of bounds.
\<close>

definition c_str :: "char list \<Rightarrow> fault + char list" where
  "c_str buf =
     (if NUL \<in> set buf then Inr (takeWhile (\<lambda>c. c \<noteq> NUL) buf) else Inl Out_of_bounds)"

definition printf_s :: "char list \<Rightarrow> world \<Rightarrow> fault + world" where
  "printf_s buf w =
     (case c_str buf of
        Inl e \<Rightarrow> Inl e
      | Inr s \<Rightarrow> Inr (w\<lparr>out := out w @ s, log := log w @ [Printf_s buf]\<rparr>))"

definition cannot_open :: "char list" where
  "cannot_open = ''wcat: cannot open file'' @ [newline]"

definition printf_msg :: "world \<Rightarrow> world" where
  "printf_msg w = w\<lparr>out := out w @ cannot_open, log := log w @ [Printf_msg]\<rparr>"

subsection \<open>The program\<close>

text \<open>
  The inner loop,
  \<^verbatim>\<open>while (fgets(line, MAX_LINE_LENGTH-1, f) != NULL) { line[MAX_LINE_LENGTH-1] = 0; printf("%s", line); }\<close>
  on the stream \<open>f\<close> of the file opened from \<open>p\<close>. It returns the buffer, which the next
  file reuses.
\<close>

function drain :: "path \<Rightarrow> char list \<Rightarrow> char list \<Rightarrow> world \<Rightarrow> fault + (char list \<times> world)" where
  "drain p line f w =
     (case fgets line (MAX_LINE_LENGTH - 1) f of
        None \<Rightarrow> Inr (line, emit (Fgets p 0) w)
      | Some (line1, f') \<Rightarrow>
          (let line2 = line1[MAX_LINE_LENGTH - 1 := NUL]
           in case printf_s line2 (emit (Fgets p (length f - length f')) w) of
                Inl e \<Rightarrow> Inl e
              | Inr w' \<Rightarrow> drain p line2 f' w'))"
  by pat_completeness auto
termination
proof (relation "measure (\<lambda>(p, line, f, w). length f)")
  show "wf (measure (\<lambda>(p, line, f, w). length f))"
    by simp
next
  fix p :: path and line f :: "char list" and w w' :: world and x line1 f' line2
  assume "fgets line (MAX_LINE_LENGTH - 1) f = Some x" and "(line1, f') = x"
  then have r: "fgets line (MAX_LINE_LENGTH - 1) f = Some (line1, f')"
    by simp
  then obtain c cs where f: "f = c # cs"
    by (cases f) (simp_all add: fgets_def)
  have k: "MAX_LINE_LENGTH - 1 - 1 = Suc 997"
    by (simp add: MAX_LINE_LENGTH_def)
  have "read_chars (Suc k) (c # cs) \<noteq> []" for k
    by simp
  then have "0 < length (read_chars (MAX_LINE_LENGTH - 1 - 1) f)"
    unfolding k f by blast
  moreover from r f have "f' = drop (length (read_chars (MAX_LINE_LENGTH - 1 - 1) f)) f"
    by (auto simp add: fgets_def Let_def)
  ultimately have "length f' < length f"
    using f by simp
  then show "((p, line2, f', w'), (p, line, f, w)) \<in> measure (\<lambda>(p, line, f, w). length f)"
    by simp
qed

text \<open>
  The outer loop, \<^verbatim>\<open>for (int i = 1; i < argc; i++)\<close>, from index \<open>i\<close> on; \<^verbatim>\<open>argc\<close> is
  the length of \<open>argv\<close>. The result is the exit code and the world.
\<close>

function cat_from ::
  "filesystem \<Rightarrow> string list \<Rightarrow> nat \<Rightarrow> char list \<Rightarrow> world \<Rightarrow> fault + (int \<times> world)" where
  "cat_from fs argv i line w =
     (if i < length argv then
        (case fs (argv ! i) of
           None \<Rightarrow> Inr (1, printf_msg (emit (Fopen_failed (argv ! i)) w))
         | Some content \<Rightarrow>
             (case drain (argv ! i) line content (emit (Fopen (argv ! i)) w) of
                Inl e \<Rightarrow> Inl e
              | Inr (line', w') \<Rightarrow>
                  cat_from fs argv (i + 1) line' (emit (Fclose (argv ! i)) w')))
      else Inr (0, w))"
  by pat_completeness auto
termination
  by (relation "measure (\<lambda>(fs, argv, i, line, w). length argv - i)") auto

text \<open>
  \<^verbatim>\<open>main\<close>. The array \<^verbatim>\<open>line\<close> is not initialised: \<open>line0\<close> is whatever its
  \<open>MAX_LINE_LENGTH\<close> bytes hold when the loop starts. The array keeps that length
  throughout (\<open>drain_result\<close>), so the index \<open>MAX_LINE_LENGTH - 1\<close> the loop writes to is
  always inside it.
\<close>

definition main :: "filesystem \<Rightarrow> char list \<Rightarrow> string list \<Rightarrow> fault + (int \<times> world)" where
  "main fs line0 argv =
     (if length argv < 2 then Inr (0, w0) else cat_from fs argv 1 line0 w0)"

text \<open>
  The specification's \<open>run(args)\<close>: the program started on the file paths \<open>args\<close>, which
  the operating system hands to \<^verbatim>\<open>main\<close> behind the program's name.
\<close>

definition run :: "filesystem \<Rightarrow> char list \<Rightarrow> path list \<Rightarrow> fault + (int \<times> world)" where
  "run fs line0 args = main fs line0 (''wcat'' # args)"

subsection \<open>The program without the forced terminator\<close>

text \<open>
  The same program with the statement \<^verbatim>\<open>line[MAX_LINE_LENGTH-1] = 0;\<close> deleted from the
  inner loop, and nothing else changed. It is what the program is compared with where the
  question is whether that statement can be observed.
\<close>

function drain_unforced ::
  "path \<Rightarrow> char list \<Rightarrow> char list \<Rightarrow> world \<Rightarrow> fault + (char list \<times> world)" where
  "drain_unforced p line f w =
     (case fgets line (MAX_LINE_LENGTH - 1) f of
        None \<Rightarrow> Inr (line, emit (Fgets p 0) w)
      | Some (line1, f') \<Rightarrow>
          (case printf_s line1 (emit (Fgets p (length f - length f')) w) of
             Inl e \<Rightarrow> Inl e
           | Inr w' \<Rightarrow> drain_unforced p line1 f' w'))"
  by pat_completeness auto
termination
proof (relation "measure (\<lambda>(p, line, f, w). length f)")
  show "wf (measure (\<lambda>(p, line, f, w). length f))"
    by simp
next
  fix p :: path and line f :: "char list" and w w' :: world and x line1 f'
  assume "fgets line (MAX_LINE_LENGTH - 1) f = Some x" and "(line1, f') = x"
  then have r: "fgets line (MAX_LINE_LENGTH - 1) f = Some (line1, f')"
    by simp
  then obtain c cs where f: "f = c # cs"
    by (cases f) (simp_all add: fgets_def)
  have k: "MAX_LINE_LENGTH - 1 - 1 = Suc 997"
    by (simp add: MAX_LINE_LENGTH_def)
  have "read_chars (Suc k) (c # cs) \<noteq> []" for k
    by simp
  then have "0 < length (read_chars (MAX_LINE_LENGTH - 1 - 1) f)"
    unfolding k f by blast
  moreover from r f have "f' = drop (length (read_chars (MAX_LINE_LENGTH - 1 - 1) f)) f"
    by (auto simp add: fgets_def Let_def)
  ultimately have "length f' < length f"
    using f by simp
  then show "((p, line1, f', w'), (p, line, f, w)) \<in> measure (\<lambda>(p, line, f, w). length f)"
    by simp
qed

function cat_from_unforced ::
  "filesystem \<Rightarrow> string list \<Rightarrow> nat \<Rightarrow> char list \<Rightarrow> world \<Rightarrow> fault + (int \<times> world)" where
  "cat_from_unforced fs argv i line w =
     (if i < length argv then
        (case fs (argv ! i) of
           None \<Rightarrow> Inr (1, printf_msg (emit (Fopen_failed (argv ! i)) w))
         | Some content \<Rightarrow>
             (case drain_unforced (argv ! i) line content (emit (Fopen (argv ! i)) w) of
                Inl e \<Rightarrow> Inl e
              | Inr (line', w') \<Rightarrow>
                  cat_from_unforced fs argv (i + 1) line' (emit (Fclose (argv ! i)) w')))
      else Inr (0, w))"
  by pat_completeness auto
termination
  by (relation "measure (\<lambda>(fs, argv, i, line, w). length argv - i)") auto

definition main_unforced :: "filesystem \<Rightarrow> char list \<Rightarrow> string list \<Rightarrow> fault + (int \<times> world)" where
  "main_unforced fs line0 argv =
     (if length argv < 2 then Inr (0, w0) else cat_from_unforced fs argv 1 line0 w0)"

definition run_unforced :: "filesystem \<Rightarrow> char list \<Rightarrow> path list \<Rightarrow> fault + (int \<times> world)" where
  "run_unforced fs line0 args = main_unforced fs line0 (''wcat'' # args)"

section \<open>Observing a run\<close>

text \<open>The exit code, the bytes on standard output and the calls of a finished run.\<close>

definition exit_code :: "fault + (int \<times> world) \<Rightarrow> int option" where
  "exit_code r = (case r of Inl e \<Rightarrow> None | Inr (c, w) \<Rightarrow> Some c)"

definition stdout :: "fault + (int \<times> world) \<Rightarrow> char list option" where
  "stdout r = (case r of Inl e \<Rightarrow> None | Inr (c, w) \<Rightarrow> Some (out w))"

definition calls :: "fault + (int \<times> world) \<Rightarrow> event list" where
  "calls r = (case r of Inl e \<Rightarrow> [] | Inr (c, w) \<Rightarrow> log w)"

text \<open>The paths handed to \<^verbatim>\<open>fopen\<close>, in order, whether the call succeeded or not.\<close>

fun opened :: "event list \<Rightarrow> path list" where
  "opened [] = []"
| "opened (Fopen p # es) = p # opened es"
| "opened (Fopen_failed p # es) = p # opened es"
| "opened (e # es) = opened es"

text \<open>The byte strings written to standard output, one for each call of \<^verbatim>\<open>printf\<close>.\<close>

fun writes :: "event list \<Rightarrow> char list list" where
  "writes [] = []"
| "writes (Printf_s b # es) = takeWhile (\<lambda>c. c \<noteq> NUL) b # writes es"
| "writes (Printf_msg # es) = cannot_open # writes es"
| "writes (e # es) = writes es"

text \<open>The number of bytes each call of \<^verbatim>\<open>fgets\<close> took from its stream.\<close>

fun read_sizes :: "event list \<Rightarrow> nat list" where
  "read_sizes [] = []"
| "read_sizes (Fgets p k # es) = k # read_sizes es"
| "read_sizes (e # es) = read_sizes es"

text \<open>
  The handles that are open after a sequence of calls: \<^verbatim>\<open>fopen\<close> adds one when it
  succeeds, \<^verbatim>\<open>fclose\<close> removes it. The states the program passes through are the
  prefixes of its log.
\<close>

fun track :: "path list \<Rightarrow> event \<Rightarrow> path list" where
  "track hs (Fopen p) = p # hs"
| "track hs (Fclose p) = remove1 p hs"
| "track hs e = hs"

definition open_handles :: "event list \<Rightarrow> path list" where
  "open_handles es = foldl track [] es"

text \<open>
  \<open>read_then_print es\<close>: in \<open>es\<close> every call of \<^verbatim>\<open>fgets\<close> that returned data is
  followed at once by the \<^verbatim>\<open>printf("%s", line)\<close>, on a buffer of \<open>MAX_LINE_LENGTH\<close>
  bytes whose last byte is the terminator, and the buffer is printed nowhere else.
\<close>

fun read_then_print :: "event list \<Rightarrow> bool" where
  "read_then_print [] = True"
| "read_then_print (Fgets p k # es) =
     (if k = 0 then read_then_print es
      else (case es of
              Printf_s b # es' \<Rightarrow>
                length b = MAX_LINE_LENGTH \<and> b ! (MAX_LINE_LENGTH - 1) = NUL \<and> read_then_print es'
            | _ \<Rightarrow> False))"
| "read_then_print (Printf_s b # es) = False"
| "read_then_print (e # es) = read_then_print es"

section \<open>What a run does, file by file\<close>

text \<open>
  The successive loads of the buffer when a stream \<open>f\<close> is read to its end with
  \<^verbatim>\<open>fgets(line, MAX_LINE_LENGTH-1, f)\<close>: each holds at most \<open>MAX_LINE_LENGTH - 2\<close> bytes.
\<close>

function chunks :: "char list \<Rightarrow> char list list" where
  "chunks f =
     (if f = [] then []
      else read_chars (MAX_LINE_LENGTH - 2) f
             # chunks (drop (length (read_chars (MAX_LINE_LENGTH - 2) f)) f))"
  by pat_completeness auto
termination
proof (relation "measure length")
  show "wf (measure (length :: char list \<Rightarrow> nat))"
    by simp
next
  fix f :: "char list"
  assume "f \<noteq> []"
  then obtain c cs where f: "f = c # cs"
    by (cases f) simp_all
  have k: "MAX_LINE_LENGTH - 2 = Suc 997"
    by (simp add: MAX_LINE_LENGTH_def)
  have "read_chars (Suc k) (c # cs) \<noteq> []" for k
    by simp
  then have "0 < length (read_chars (MAX_LINE_LENGTH - 2) f)"
    unfolding k f by blast
  then show "(drop (length (read_chars (MAX_LINE_LENGTH - 2) f)) f, f) \<in> measure length"
    using f by simp
qed

text \<open>What \<^verbatim>\<open>%s\<close> prints of a sequence of loads, and of the files of a list of paths.\<close>

definition shown :: "char list list \<Rightarrow> char list" where
  "shown gs = concat (map (takeWhile (\<lambda>c. c \<noteq> NUL)) gs)"

definition printed :: "filesystem \<Rightarrow> path list \<Rightarrow> char list" where
  "printed fs ps = concat (map (\<lambda>p. shown (chunks (the (fs p)))) ps)"

text \<open>
  \<open>buf_ok g b\<close>: the buffer \<open>b\<close> is what the loop hands to \<^verbatim>\<open>printf\<close> after it has
  read \<open>g\<close>. \<open>reads p gbs\<close>: the calls of the loop for the loads and buffers \<open>gbs\<close>.
  \<open>file_session fs p es\<close>: \<open>es\<close> are the calls for one readable file, from its
  \<^verbatim>\<open>fopen\<close> to its \<^verbatim>\<open>fclose\<close>.
\<close>

definition buf_ok :: "char list \<Rightarrow> char list \<Rightarrow> bool" where
  "buf_ok g b \<longleftrightarrow>
     length b = MAX_LINE_LENGTH \<and> b ! (MAX_LINE_LENGTH - 1) = NUL \<and>
     0 < length g \<and> length g \<le> MAX_LINE_LENGTH - 2 \<and> take (length g) b = g \<and> b ! length g = NUL"

definition reads :: "path \<Rightarrow> (char list \<times> char list) list \<Rightarrow> event list" where
  "reads p gbs = concat (map (\<lambda>(g, b). [Fgets p (length g), Printf_s b]) gbs)"

definition file_session :: "filesystem \<Rightarrow> path \<Rightarrow> event list \<Rightarrow> bool" where
  "file_session fs p es \<longleftrightarrow>
     (\<exists>c gbs. fs p = Some c \<and> map fst gbs = chunks c \<and> (\<forall>(g, b) \<in> set gbs. buf_ok g b) \<and>
        es = Fopen p # reads p gbs @ [Fgets p 0, Fclose p])"

text \<open>The recursive form of "no prefix of the log has more than one handle open".\<close>

fun at_most_one :: "path list \<Rightarrow> event list \<Rightarrow> bool" where
  "at_most_one hs [] \<longleftrightarrow> length hs \<le> 1"
| "at_most_one hs (e # es) \<longleftrightarrow> length hs \<le> 1 \<and> at_most_one (track hs e) es"

text \<open>Every buffer printed holds a terminator among its first \<open>MAX_LINE_LENGTH - 1\<close> bytes.\<close>

definition early_NUL :: "event list \<Rightarrow> bool" where
  "early_NUL es \<longleftrightarrow> (\<forall>b. Printf_s b \<in> set es \<longrightarrow> NUL \<in> set (take (MAX_LINE_LENGTH - 1) b))"

section \<open>The reads and the writes against the bytes of the files\<close>

text \<open>
  The number of bytes one read takes from what is left of a file, stated without the
  program: up to 998 bytes, or up to and including the next newline, or up to the end of
  the file, whichever comes first.
\<close>

definition load_size :: "char list \<Rightarrow> nat" where
  "load_size f = min 998 (min (length f) (Suc (length (takeWhile (\<lambda>c. c \<noteq> newline) f))))"

text \<open>
  \<open>reads_follow fs ks\<close>: the sizes \<open>ks\<close> are those of the reads of the files \<open>fs\<close>, one
  file after the other, the head of \<open>fs\<close> being what is left of the file that is open.
  Each read takes \<open>load_size\<close> bytes from where the one before it stopped; the read that
  takes nothing has found the end of the file, and the next read is on the next file.
\<close>

fun reads_follow :: "char list list \<Rightarrow> nat list \<Rightarrow> bool" where
  "reads_follow [] ks \<longleftrightarrow> ks = []"
| "reads_follow (f # fs) [] \<longleftrightarrow> False"
| "reads_follow (f # fs) (k # ks) \<longleftrightarrow>
     k = load_size f \<and>
     (if k = 0 then reads_follow fs ks else reads_follow (drop k f # fs) ks)"

text \<open>
  \<open>writes_follow fs ws\<close>: the strings \<open>ws\<close> are what is written for the files \<open>fs\<close>: for
  each load of \<open>load_size\<close> bytes, in order, the bytes of the load before its first NUL,
  and nothing else.
\<close>

fun writes_follow :: "char list list \<Rightarrow> char list list \<Rightarrow> bool" where
  "writes_follow [] ws \<longleftrightarrow> ws = []"
| "writes_follow (f # fs) ws \<longleftrightarrow>
     (if f = [] then writes_follow fs ws
      else (case ws of
              [] \<Rightarrow> False
            | w # ws' \<Rightarrow>
                w = takeWhile (\<lambda>c. c \<noteq> NUL) (take (load_size f) f) \<and>
                writes_follow (drop (load_size f) f # fs) ws'))"

section \<open>Concrete inputs\<close>

text \<open>
  Two states of the uninitialised buffer, and four file systems: the two files of the
  specification's scenario, a file with a terminator byte inside, a single line of 1000
  bytes and its newline, and 999 bytes without a newline.
\<close>

definition garbage :: "char list" where
  "garbage = replicate MAX_LINE_LENGTH (CHR ''#'')"

definition zeros :: "char list" where
  "zeros = replicate MAX_LINE_LENGTH NUL"

definition fs_hello :: filesystem where
  "fs_hello = [''a.txt'' \<mapsto> ''hello'' @ [newline], ''b.txt'' \<mapsto> ''world'' @ [newline]]"

definition fs_nul :: filesystem where
  "fs_nul = [''n.bin'' \<mapsto> ''ab'' @ NUL # ''cd'']"

definition fs_long :: filesystem where
  "fs_long = [''long.txt'' \<mapsto> replicate 1000 (CHR ''a'') @ [newline]]"

definition fs_999 :: filesystem where
  "fs_999 = [''l999'' \<mapsto> replicate 999 (CHR ''a'')]"

section \<open>The library calls and the inner loop\<close>

declare drain.simps [simp del]
declare cat_from.simps [simp del]
declare chunks.simps [simp del]
declare drain_unforced.simps [simp del]
declare cat_from_unforced.simps [simp del]
declare writes_follow.simps [simp del]

lemma read_chars_length: "length (read_chars k f) \<le> k"
  by (induction k f rule: read_chars.induct) simp_all

lemma read_chars_length_le: "length (read_chars k f) \<le> length f"
  by (induction k f rule: read_chars.induct) simp_all

lemma read_chars_drop: "read_chars k f @ drop (length (read_chars k f)) f = f"
  by (induction k f rule: read_chars.induct) simp_all

lemma read_chars_nonempty: "f \<noteq> [] \<Longrightarrow> 0 < k \<Longrightarrow> read_chars k f \<noteq> []"
  by (cases k; cases f) simp_all

lemma read_chars_replicate:
  "c \<noteq> newline \<Longrightarrow> read_chars k (replicate n c) = replicate (min k n) c"
proof (induction k "replicate n c" arbitrary: n rule: read_chars.induct)
  case (1 cs)
  then show ?case by simp
next
  case (2 k)
  then show ?case by simp
next
  case (3 k c' cs)
  then obtain m where n: "n = Suc m" and c': "c' = c" and cs: "cs = replicate m c"
    by (cases n) simp_all
  with 3 show ?case
    by simp
qed

lemma chunks_Nil: "chunks [] = []"
  by (simp add: chunks.simps)

lemma chunks_Cons:
  "f \<noteq> [] \<Longrightarrow> chunks f = read_chars (MAX_LINE_LENGTH - 2) f
       # chunks (drop (length (read_chars (MAX_LINE_LENGTH - 2) f)) f)"
  by (subst chunks.simps) simp

lemma concat_chunks: "concat (chunks f) = f"
proof (induction f rule: chunks.induct)
  case (1 f)
  show ?case
  proof (cases "f = []")
    case True
    then show ?thesis by (simp add: chunks_Nil)
  next
    case False
    with 1 show ?thesis
      by (simp add: chunks_Cons read_chars_drop)
  qed
qed

lemma chunks_two:
  assumes "MAX_LINE_LENGTH - 2 < length c"
  shows "2 \<le> length (chunks c)"
proof -
  let ?g = "read_chars (MAX_LINE_LENGTH - 2) c"
  from assms have c: "c \<noteq> []"
    by auto
  have "length ?g \<le> MAX_LINE_LENGTH - 2"
    by (rule read_chars_length)
  with assms have "drop (length ?g) c \<noteq> []"
    by simp
  then show ?thesis
    by (subst chunks_Cons [OF c], subst chunks_Cons) simp_all
qed

lemma chunks_replicate:
  assumes "c \<noteq> newline"
  shows "chunks (replicate n c) =
     (if n = 0 then []
      else replicate (min (MAX_LINE_LENGTH - 2) n) c # chunks (replicate (n - (MAX_LINE_LENGTH - 2)) c))"
proof (cases "n = 0")
  case True
  then show ?thesis by (simp add: chunks_Nil)
next
  case False
  then have "replicate n c \<noteq> []"
    by simp
  from chunks_Cons [OF this] False show ?thesis
    by (simp add: read_chars_replicate [OF assms] min_def)
qed

lemma fgets_eof: "fgets line n [] = None"
  by (simp add: fgets_def)

lemma fgets_step:
  assumes "f \<noteq> []"
  shows "fgets line (MAX_LINE_LENGTH - 1) f =
     Some (read_chars (MAX_LINE_LENGTH - 2) f
             @ NUL # drop (length (read_chars (MAX_LINE_LENGTH - 2) f) + 1) line,
           drop (length (read_chars (MAX_LINE_LENGTH - 2) f)) f)"
proof -
  have "MAX_LINE_LENGTH - 1 - 1 = MAX_LINE_LENGTH - 2"
    by simp
  with assms show ?thesis
    by (simp add: fgets_def Let_def)
qed

lemma takeWhile_stop:
  "takeWhile (\<lambda>c. c \<noteq> z) (g @ z # r) = takeWhile (\<lambda>c. c \<noteq> z) g"
  by (induction g) simp_all

lemma c_str_terminated:
  assumes "length g < length b" and "take (length g) b = g" and "b ! length g = NUL"
  shows "c_str b = Inr (takeWhile (\<lambda>c. c \<noteq> NUL) g)"
proof -
  have "b = take (length g) b @ drop (length g) b"
    by simp
  also have "drop (length g) b = b ! length g # drop (Suc (length g)) b"
    using assms(1) by (simp add: Cons_nth_drop_Suc)
  finally have b: "b = g @ NUL # drop (Suc (length g)) b"
    using assms(2,3) by simp
  have "NUL \<in> set b"
    by (subst b) simp
  moreover have "takeWhile (\<lambda>c. c \<noteq> NUL) b = takeWhile (\<lambda>c. c \<noteq> NUL) g"
    by (subst b) (rule takeWhile_stop)
  ultimately show ?thesis
    by (simp add: c_str_def)
qed

lemma buf_ok_c_str: "buf_ok g b \<Longrightarrow> c_str b = Inr (takeWhile (\<lambda>c. c \<noteq> NUL) g)"
  by (rule c_str_terminated) (simp_all add: buf_ok_def MAX_LINE_LENGTH_def)

lemma buf_ok_takeWhile:
  assumes "buf_ok g b"
  shows "takeWhile (\<lambda>c. c \<noteq> NUL) b = takeWhile (\<lambda>c. c \<noteq> NUL) g"
  using buf_ok_c_str [OF assms] by (simp add: c_str_def split: if_splits)

lemma forced_c_str:
  assumes "length b = MAX_LINE_LENGTH"
  shows "\<exists>s. c_str (b[MAX_LINE_LENGTH - 1 := NUL]) = Inr s"
proof -
  have "MAX_LINE_LENGTH - 1 < length b"
    using assms by (simp add: MAX_LINE_LENGTH_def)
  then have "NUL \<in> set (b[MAX_LINE_LENGTH - 1 := NUL])"
    by (rule set_update_memI)
  then show ?thesis
    by (simp add: c_str_def)
qed

lemma stored_length:
  "length line = MAX_LINE_LENGTH \<Longrightarrow> length g \<le> MAX_LINE_LENGTH - 2 \<Longrightarrow>
   length (g @ NUL # drop (length g + 1) line) = MAX_LINE_LENGTH"
  by (simp add: MAX_LINE_LENGTH_def)

lemma stored_forced_ok:
  assumes "length line = MAX_LINE_LENGTH" and "length g \<le> MAX_LINE_LENGTH - 2" and "g \<noteq> []"
  shows "buf_ok g ((g @ NUL # drop (length g + 1) line)[MAX_LINE_LENGTH - 1 := NUL])"
proof -
  let ?b = "g @ NUL # drop (length g + 1) line"
  have len: "length ?b = MAX_LINE_LENGTH"
    using assms(1,2) by (rule stored_length)
  have lt: "length g < MAX_LINE_LENGTH - 1"
    using assms(2) by (simp add: MAX_LINE_LENGTH_def)
  have "?b[MAX_LINE_LENGTH - 1 := NUL] ! (MAX_LINE_LENGTH - 1) = NUL"
    using len by (simp add: MAX_LINE_LENGTH_def)
  moreover have "take (length g) (?b[MAX_LINE_LENGTH - 1 := NUL]) = g"
    using lt by (simp add: list_update_append)
  moreover have "?b[MAX_LINE_LENGTH - 1 := NUL] ! length g = NUL"
    using lt by (simp add: nth_list_update)
  ultimately show ?thesis
    using len assms(2,3) by (simp add: buf_ok_def)
qed

text \<open>One turn of the loop, and the loop as a whole.\<close>

lemma drain_eof: "drain p line [] w = Inr (line, emit (Fgets p 0) w)"
  by (simp add: drain.simps fgets_eof)

lemma drain_step:
  assumes "f \<noteq> []" and "length line = MAX_LINE_LENGTH"
  defines "g \<equiv> read_chars (MAX_LINE_LENGTH - 2) f"
  defines "b \<equiv> (g @ NUL # drop (length g + 1) line)[MAX_LINE_LENGTH - 1 := NUL]"
  shows "drain p line f w =
           drain p b (drop (length g) f)
             (w\<lparr>out := out w @ takeWhile (\<lambda>c. c \<noteq> NUL) g,
               log := log w @ [Fgets p (length g), Printf_s b]\<rparr>)"
    and "buf_ok g b"
proof -
  have gl: "length g \<le> MAX_LINE_LENGTH - 2"
    unfolding g_def by (rule read_chars_length)
  have "0 < MAX_LINE_LENGTH - 2"
    by (simp add: MAX_LINE_LENGTH_def)
  with assms(1) have g: "g \<noteq> []"
    unfolding g_def by (rule read_chars_nonempty)
  show ok: "buf_ok g b"
    unfolding b_def using assms(2) gl g by (rule stored_forced_ok)
  have fg: "fgets line (MAX_LINE_LENGTH - 1) f =
      Some (g @ NUL # drop (length g + 1) line, drop (length g) f)"
    unfolding g_def using assms(1) by (rule fgets_step)
  have n: "length f - length (drop (length g) f) = length g"
    using read_chars_length_le [of "MAX_LINE_LENGTH - 2" f] by (simp add: g_def)
  have "drain p line f w =
      (case printf_s b (emit (Fgets p (length g)) w) of
         Inl e \<Rightarrow> Inl e
       | Inr w' \<Rightarrow> drain p b (drop (length g) f) w')"
    by (subst drain.simps) (simp only: fg option.case prod.case Let_def b_def n)
  also have "printf_s b (emit (Fgets p (length g)) w) =
      Inr (w\<lparr>out := out w @ takeWhile (\<lambda>c. c \<noteq> NUL) g,
               log := log w @ [Fgets p (length g), Printf_s b]\<rparr>)"
    by (simp add: printf_s_def emit_def buf_ok_c_str [OF ok])
  finally show "drain p line f w =
           drain p b (drop (length g) f)
             (w\<lparr>out := out w @ takeWhile (\<lambda>c. c \<noteq> NUL) g,
               log := log w @ [Fgets p (length g), Printf_s b]\<rparr>)"
    by simp
qed

lemma drain_result:
  "length line = MAX_LINE_LENGTH \<Longrightarrow>
   \<exists>line' gbs. drain p line f w =
       Inr (line', w\<lparr>out := out w @ shown (map fst gbs),
                     log := log w @ reads p gbs @ [Fgets p 0]\<rparr>) \<and>
     length line' = MAX_LINE_LENGTH \<and> map fst gbs = chunks f \<and>
     (\<forall>(g, b) \<in> set gbs. buf_ok g b)"
proof (induction f arbitrary: line w rule: chunks.induct)
  case (1 f)
  show ?case
  proof (cases "f = []")
    case True
    have "drain p line f w =
       Inr (line, w\<lparr>out := out w @ shown (map fst []),
                     log := log w @ reads p [] @ [Fgets p 0]\<rparr>)"
      by (simp add: True drain_eof emit_def shown_def reads_def)
    moreover have "map fst ([] :: (char list \<times> char list) list) = chunks f"
      by (simp add: True chunks_Nil)
    moreover have "\<forall>(g, b) \<in> set []. buf_ok g b"
      by simp
    ultimately show ?thesis
      using "1.prems" by blast
  next
    case False
    define g where "g = read_chars (MAX_LINE_LENGTH - 2) f"
    define b where "b = (g @ NUL # drop (length g + 1) line)[MAX_LINE_LENGTH - 1 := NUL]"
    define w1 where "w1 = w\<lparr>out := out w @ takeWhile (\<lambda>c. c \<noteq> NUL) g,
               log := log w @ [Fgets p (length g), Printf_s b]\<rparr>"
    have step: "drain p line f w = drain p b (drop (length g) f) w1"
      and ok: "buf_ok g b"
      unfolding g_def b_def w1_def using False "1.prems" by (rule drain_step)+
    from ok have "length b = MAX_LINE_LENGTH"
      by (simp add: buf_ok_def)
    from "1.IH" [OF False this, of w1, folded g_def]
    obtain line' gbs where r: "drain p b (drop (length g) f) w1 =
         Inr (line', w1\<lparr>out := out w1 @ shown (map fst gbs),
                     log := log w1 @ reads p gbs @ [Fgets p 0]\<rparr>)"
      and len: "length line' = MAX_LINE_LENGTH"
      and ch: "map fst gbs = chunks (drop (length g) f)"
      and oks: "\<forall>(g, b) \<in> set gbs. buf_ok g b"
      by blast
    have "w1\<lparr>out := out w1 @ shown (map fst gbs),
             log := log w1 @ reads p gbs @ [Fgets p 0]\<rparr> =
          w\<lparr>out := out w @ shown (map fst ((g, b) # gbs)),
            log := log w @ reads p ((g, b) # gbs) @ [Fgets p 0]\<rparr>"
      by (simp add: w1_def shown_def reads_def)
    with step r have "drain p line f w =
       Inr (line', w\<lparr>out := out w @ shown (map fst ((g, b) # gbs)),
                     log := log w @ reads p ((g, b) # gbs) @ [Fgets p 0]\<rparr>)"
      by simp
    moreover have "map fst ((g, b) # gbs) = chunks f"
      using False ch by (simp add: chunks_Cons g_def)
    moreover have "\<forall>(g, b) \<in> set ((g, b) # gbs). buf_ok g b"
      using ok oks by simp
    ultimately show ?thesis
      using len by blast
  qed
qed

section \<open>The outer loop and the whole program\<close>

lemma printed_Nil: "printed fs [] = []"
  by (simp add: printed_def)

lemma printed_Cons: "printed fs (q # ps) = shown (chunks (the (fs q))) @ printed fs ps"
  by (simp add: printed_def)

lemma cat_from_done: "length argv \<le> i \<Longrightarrow> cat_from fs argv i line w = Inr (0, w)"
  by (subst cat_from.simps) simp

lemma cat_from_fail:
  "i < length argv \<Longrightarrow> fs (argv ! i) = None \<Longrightarrow>
   cat_from fs argv i line w =
     Inr (1, w\<lparr>out := out w @ cannot_open,
               log := log w @ [Fopen_failed (argv ! i), Printf_msg]\<rparr>)"
  by (subst cat_from.simps) (simp add: printf_msg_def emit_def)

lemma cat_from_file:
  "i < length argv \<Longrightarrow> fs (argv ! i) = Some c \<Longrightarrow>
   drain (argv ! i) line c (emit (Fopen (argv ! i)) w) = Inr (line', w') \<Longrightarrow>
   cat_from fs argv i line w = cat_from fs argv (i + 1) line' (emit (Fclose (argv ! i)) w')"
  by (subst cat_from.simps) simp

lemma cat_from_result:
  assumes "length line = MAX_LINE_LENGTH"
    and "drop i argv = pre @ post"
    and "\<forall>q \<in> set pre. fs q \<noteq> None"
    and "post \<noteq> [] \<Longrightarrow> fs (hd post) = None"
  shows "\<exists>ess. list_all2 (file_session fs) pre ess \<and>
     cat_from fs argv i line w =
       Inr (if post = [] then 0 else 1,
            w\<lparr>out := out w @ printed fs pre @ (if post = [] then [] else cannot_open),
              log := log w @ concat ess @
                (if post = [] then [] else [Fopen_failed (hd post), Printf_msg])\<rparr>)"
  using assms(1-3)
proof (induction pre arbitrary: i line w)
  case Nil
  show ?case
  proof (cases "post = []")
    case True
    with Nil have "length argv \<le> i"
      by simp
    then have "cat_from fs argv i line w = Inr (0, w)"
      by (rule cat_from_done)
    with True show ?thesis
      by (simp add: printed_Nil)
  next
    case False
    with Nil have i: "i < length argv" and "argv ! i = hd post"
      by (auto simp add: hd_drop_conv_nth [symmetric] intro: ccontr)
    with assms(4) False have "cat_from fs argv i line w =
       Inr (1, w\<lparr>out := out w @ cannot_open,
               log := log w @ [Fopen_failed (hd post), Printf_msg]\<rparr>)"
      using cat_from_fail [of i argv fs line w] by simp
    with False show ?thesis
      by (simp add: printed_Nil)
  qed
next
  case (Cons q pre)
  from Cons.prems(2) have i: "i < length argv"
    by (auto intro: ccontr)
  with Cons.prems(2) have q: "argv ! i = q" and rest: "drop (i + 1) argv = pre @ post"
    by (simp_all add: Cons_nth_drop_Suc [symmetric])
  from Cons.prems(3) obtain c where c: "fs q = Some c"
    by auto
  define w1 where "w1 = emit (Fopen q) w"
  from drain_result [OF Cons.prems(1), of q c w1]
  obtain line' gbs where d: "drain q line c w1 =
       Inr (line', w1\<lparr>out := out w1 @ shown (map fst gbs),
                     log := log w1 @ reads q gbs @ [Fgets q 0]\<rparr>)"
    and len: "length line' = MAX_LINE_LENGTH"
    and ch: "map fst gbs = chunks c"
    and oks: "\<forall>(g, b) \<in> set gbs. buf_ok g b"
    by blast
  define w2 where "w2 = emit (Fclose q)
    (w1\<lparr>out := out w1 @ shown (map fst gbs), log := log w1 @ reads q gbs @ [Fgets q 0]\<rparr>)"
  have step: "cat_from fs argv i line w = cat_from fs argv (i + 1) line' w2"
    unfolding w2_def using i c d cat_from_file [of i argv fs c line w line'] 
    by (simp add: q w1_def)
  from Cons.prems(3) have "\<forall>q \<in> set pre. fs q \<noteq> None"
    by simp
  from Cons.IH [OF len rest this, of w2]
  obtain ess where all: "list_all2 (file_session fs) pre ess"
    and r: "cat_from fs argv (i + 1) line' w2 =
       Inr (if post = [] then 0 else 1,
            w2\<lparr>out := out w2 @ printed fs pre @ (if post = [] then [] else cannot_open),
              log := log w2 @ concat ess @
                (if post = [] then [] else [Fopen_failed (hd post), Printf_msg])\<rparr>)"
    by blast
  define es where "es = Fopen q # reads q gbs @ [Fgets q 0, Fclose q]"
  have "file_session fs q es"
    unfolding file_session_def es_def using c ch oks by blast
  with all have "list_all2 (file_session fs) (q # pre) (es # ess)"
    by simp
  moreover have "w2\<lparr>out := out w2 @ printed fs pre @ (if post = [] then [] else cannot_open),
              log := log w2 @ concat ess @
                (if post = [] then [] else [Fopen_failed (hd post), Printf_msg])\<rparr> =
      w\<lparr>out := out w @ printed fs (q # pre) @ (if post = [] then [] else cannot_open),
              log := log w @ concat (es # ess) @
                (if post = [] then [] else [Fopen_failed (hd post), Printf_msg])\<rparr>"
    by (simp add: w2_def w1_def emit_def es_def printed_Cons c ch)
  ultimately show ?case
    using step r by (metis (no_types))
qed

lemma main_cat_from: "main fs line0 (a # args) = cat_from fs (a # args) 1 line0 w0"
proof (cases args)
  case Nil
  then show ?thesis
    by (simp add: main_def cat_from_done)
next
  case (Cons q qs)
  then show ?thesis
    by (simp add: main_def)
qed

text \<open>
  A run on \<open>pre @ post\<close>, where the files of \<open>pre\<close> open and the first of \<open>post\<close>, if
  there is one, does not.
\<close>

lemma run_result:
  assumes "length line0 = MAX_LINE_LENGTH"
    and "args = pre @ post"
    and "\<forall>q \<in> set pre. fs q \<noteq> None"
    and "post \<noteq> [] \<Longrightarrow> fs (hd post) = None"
  shows "\<exists>ess. list_all2 (file_session fs) pre ess \<and>
     run fs line0 args =
       Inr (if post = [] then 0 else 1,
            \<lparr>out = printed fs pre @ (if post = [] then [] else cannot_open),
             log = concat ess @
                (if post = [] then [] else [Fopen_failed (hd post), Printf_msg])\<rparr>)"
proof -
  have "drop 1 (''wcat'' # args) = pre @ post"
    using assms(2) by simp
  from cat_from_result [OF assms(1) this assms(3,4), of w0]
  show ?thesis
    by (simp add: run_def main_cat_from w0_def)
qed

lemma run_total:
  fixes fs :: filesystem and args :: "path list"
  assumes "length line0 = MAX_LINE_LENGTH"
  defines "pre \<equiv> takeWhile (\<lambda>q. fs q \<noteq> None) args"
  defines "post \<equiv> dropWhile (\<lambda>q. fs q \<noteq> None) args"
  shows "\<exists>ess. list_all2 (file_session fs) pre ess \<and>
     run fs line0 args =
       Inr (if post = [] then 0 else 1,
            \<lparr>out = printed fs pre @ (if post = [] then [] else cannot_open),
             log = concat ess @
                (if post = [] then [] else [Fopen_failed (hd post), Printf_msg])\<rparr>)"
proof (rule run_result [OF assms(1)])
  show "args = pre @ post"
    by (simp add: pre_def post_def)
  show "\<forall>q \<in> set pre. fs q \<noteq> None"
    unfolding pre_def by (auto dest: set_takeWhileD)
  show "fs (hd post) = None" if "post \<noteq> []"
    using that hd_dropWhile [of "\<lambda>q. fs q \<noteq> None" args] by (simp add: post_def)
qed

lemma run_shape:
  fixes fs :: filesystem and args :: "path list"
  assumes "length line0 = MAX_LINE_LENGTH"
  shows "\<exists>ess code bytes tail.
     list_all2 (file_session fs) (takeWhile (\<lambda>q. fs q \<noteq> None) args) ess \<and>
     run fs line0 args = Inr (code, \<lparr>out = bytes, log = concat ess @ tail\<rparr>) \<and>
     (tail = [] \<or> (\<exists>q. tail = [Fopen_failed q, Printf_msg]))"
proof -
  let ?post = "dropWhile (\<lambda>q. fs q \<noteq> None) args"
  from run_total [OF assms, of fs args]
  obtain ess where ess: "list_all2 (file_session fs) (takeWhile (\<lambda>q. fs q \<noteq> None) args) ess"
    and r: "run fs line0 args =
       Inr (if ?post = [] then 0 else 1,
            \<lparr>out = printed fs (takeWhile (\<lambda>q. fs q \<noteq> None) args)
                     @ (if ?post = [] then [] else cannot_open),
             log = concat ess @
                (if ?post = [] then [] else [Fopen_failed (hd ?post), Printf_msg])\<rparr>)"
    by blast
  have "(if ?post = [] then [] else [Fopen_failed (hd ?post), Printf_msg]) = [] \<or>
     (\<exists>q. (if ?post = [] then [] else [Fopen_failed (hd ?post), Printf_msg])
        = [Fopen_failed q, Printf_msg])"
    by simp
  with ess r show ?thesis
    by blast
qed

lemma run_stdout:
  fixes fs :: filesystem and args :: "path list"
  assumes "length line0 = MAX_LINE_LENGTH"
  shows "stdout (run fs line0 args) =
     Some (printed fs (takeWhile (\<lambda>q. fs q \<noteq> None) args)
            @ (if dropWhile (\<lambda>q. fs q \<noteq> None) args = [] then [] else cannot_open))"
proof -
  from run_total [OF assms, of fs args]
  obtain w where "run fs line0 args =
       Inr (if dropWhile (\<lambda>q. fs q \<noteq> None) args = [] then 0 else 1, w)"
    and "out w = printed fs (takeWhile (\<lambda>q. fs q \<noteq> None) args)
            @ (if dropWhile (\<lambda>q. fs q \<noteq> None) args = [] then [] else cannot_open)"
    by fastforce
  then show ?thesis
    by (simp add: stdout_def)
qed

lemma run_exit_code:
  fixes fs :: filesystem and args :: "path list"
  assumes "length line0 = MAX_LINE_LENGTH"
  shows "exit_code (run fs line0 args) =
     Some (if dropWhile (\<lambda>q. fs q \<noteq> None) args = [] then 0 else 1)"
proof -
  from run_total [OF assms, of fs args]
  obtain w where "run fs line0 args =
       Inr (if dropWhile (\<lambda>q. fs q \<noteq> None) args = [] then 0 else 1, w)"
    by blast
  then show ?thesis
    by (simp add: exit_code_def)
qed

subsection \<open>What is printed\<close>

lemma shown_faithful:
  assumes "NUL \<notin> set c"
  shows "shown (chunks c) = c"
proof -
  have "takeWhile (\<lambda>c. c \<noteq> NUL) g = g" if "g \<in> set (chunks c)" for g
  proof -
    from that have "set g \<subseteq> set (concat (chunks c))"
      by auto
    with assms show ?thesis
      by (auto simp add: concat_chunks takeWhile_eq_all_conv)
  qed
  then have "map (takeWhile (\<lambda>c. c \<noteq> NUL)) (chunks c) = chunks c"
    by (simp add: map_idI)
  then show ?thesis
    by (simp add: shown_def concat_chunks)
qed

lemma shown_no_NUL: "NUL \<notin> set (shown gs)"
  by (auto simp add: shown_def dest: set_takeWhileD)

lemma printed_contents:
  "map fs ps = map Some cs \<Longrightarrow> printed fs ps = concat (map (\<lambda>c. shown (chunks c)) cs)"
proof (induction ps arbitrary: cs)
  case Nil
  then show ?case by (simp add: printed_Nil)
next
  case (Cons q ps)
  then obtain c cs' where "cs = c # cs'" and "fs q = Some c" and "map fs ps = map Some cs'"
    by (cases cs) auto
  with Cons.IH [of cs'] show ?case
    by (simp add: printed_Cons)
qed

lemma printed_faithful:
  assumes "map fs ps = map Some cs" and "\<forall>c \<in> set cs. NUL \<notin> set c"
  shows "printed fs ps = concat cs"
proof -
  have "map (\<lambda>c. shown (chunks c)) cs = cs"
    using assms(2) by (simp add: map_idI shown_faithful)
  with printed_contents [OF assms(1)] show ?thesis
    by simp
qed

lemma printed_cong: "\<forall>p \<in> set ps. fs p = fs' p \<Longrightarrow> printed fs ps = printed fs' ps"
  by (simp add: printed_def cong: map_cong)

lemma readable: "map fs ps = map Some cs \<Longrightarrow> \<forall>q \<in> set ps. fs q \<noteq> None"
  by (induction ps arbitrary: cs) auto

lemma out_is_writes:
  "concat (concat (map (\<lambda>p. map (takeWhile (\<lambda>c. c \<noteq> NUL)) (chunks (the (fs p)))) ps)) =
   printed fs ps"
  by (induction ps) (simp_all add: printed_Nil printed_Cons shown_def)

subsection \<open>The log\<close>

lemma opened_append: "opened (xs @ ys) = opened xs @ opened ys"
  by (induction xs rule: opened.induct) simp_all

lemma writes_append: "writes (xs @ ys) = writes xs @ writes ys"
  by (induction xs rule: writes.induct) simp_all

lemma read_sizes_append: "read_sizes (xs @ ys) = read_sizes xs @ read_sizes ys"
  by (induction xs rule: read_sizes.induct) simp_all

lemma read_then_print_append:
  "read_then_print xs \<Longrightarrow> read_then_print ys \<Longrightarrow> read_then_print (xs @ ys)"
  by (induction xs rule: read_then_print.induct)
    (auto split: list.splits event.splits if_splits)

lemma at_most_one_append:
  "at_most_one hs (xs @ ys) \<longleftrightarrow> at_most_one hs xs \<and> at_most_one (foldl track hs xs) ys"
  by (induction xs arbitrary: hs) (auto, (cases ys; simp)+)

lemma at_most_one_prefixes:
  "at_most_one hs es \<longleftrightarrow> (\<forall>n \<le> length es. length (foldl track hs (take n es)) \<le> 1)"
proof (induction es arbitrary: hs)
  case Nil
  then show ?case by simp
next
  case (Cons e es)
  have "(\<forall>n \<le> Suc (length es). length (foldl track hs (take n (e # es))) \<le> 1) \<longleftrightarrow>
        length hs \<le> 1 \<and> (\<forall>n \<le> length es. length (foldl track (track hs e) (take n es)) \<le> 1)"
    (is "?L \<longleftrightarrow> ?R")
  proof
    assume l: ?L
    from l [rule_format, of 0] have "length hs \<le> 1" by simp
    moreover have "length (foldl track (track hs e) (take n es)) \<le> 1" if "n \<le> length es" for n
      using l [rule_format, of "Suc n"] that by simp
    ultimately show ?R by blast
  next
    assume r: ?R
    show ?L
    proof (intro allI impI)
      fix n assume "n \<le> Suc (length es)"
      with r show "length (foldl track hs (take n (e # es))) \<le> 1"
        by (cases n) simp_all
    qed
  qed
  with Cons.IH [of "track hs e"] show ?case
    by simp
qed

lemma reads_Nil: "reads p [] = []"
  by (simp add: reads_def)

lemma reads_Cons: "reads p ((g, b) # gbs) = Fgets p (length g) # Printf_s b # reads p gbs"
  by (simp add: reads_def)

lemma opened_reads: "opened (reads p gbs) = []"
  by (induction gbs) (auto simp add: reads_Nil reads_Cons)

lemma track_reads: "foldl track hs (reads p gbs) = hs"
  by (induction gbs) (auto simp add: reads_Nil reads_Cons)

lemma at_most_one_reads: "at_most_one hs (reads p gbs) \<longleftrightarrow> length hs \<le> 1"
  by (induction gbs) (auto simp add: reads_Nil reads_Cons)

lemma writes_reads:
  "\<forall>(g, b) \<in> set gbs. buf_ok g b \<Longrightarrow>
   writes (reads p gbs) = map (takeWhile (\<lambda>c. c \<noteq> NUL)) (map fst gbs)"
  by (induction gbs) (auto simp add: reads_Nil reads_Cons buf_ok_takeWhile)

lemma read_sizes_reads: "read_sizes (reads p gbs) = map length (map fst gbs)"
  by (induction gbs) (auto simp add: reads_Nil reads_Cons)

lemma read_then_print_reads:
  "\<forall>(g, b) \<in> set gbs. buf_ok g b \<Longrightarrow> read_then_print (reads p gbs)"
  by (induction gbs) (auto simp add: reads_Nil reads_Cons buf_ok_def)

lemma Fgets_reads:
  "\<forall>(g, b) \<in> set gbs. buf_ok g b \<Longrightarrow> Fgets q k \<in> set (reads p gbs) \<Longrightarrow>
   q = p \<and> k \<le> MAX_LINE_LENGTH - 2"
  by (induction gbs) (auto simp add: reads_Nil reads_Cons buf_ok_def)

text \<open>One file's calls.\<close>

lemma session_opened: "file_session fs p es \<Longrightarrow> opened es = [p]"
  by (auto simp add: file_session_def opened_append opened_reads)

lemma session_handles: "file_session fs p es \<Longrightarrow> foldl track [] es = [] \<and> at_most_one [] es"
  by (auto simp add: file_session_def track_reads at_most_one_append at_most_one_reads)

lemma session_writes:
  "file_session fs p es \<Longrightarrow>
   writes es = map (takeWhile (\<lambda>c. c \<noteq> NUL)) (chunks (the (fs p)))"
  by (auto simp add: file_session_def writes_append writes_reads)

lemma session_read_sizes:
  "file_session fs p es \<Longrightarrow> read_sizes es = map length (chunks (the (fs p))) @ [0]"
  by (auto simp add: file_session_def read_sizes_append read_sizes_reads)

lemma session_read_then_print: "file_session fs p es \<Longrightarrow> read_then_print es"
  by (auto simp add: file_session_def intro!: read_then_print_append read_then_print_reads)

lemma session_Fgets:
  "file_session fs p es \<Longrightarrow> Fgets q k \<in> set es \<Longrightarrow> q = p \<and> k \<le> MAX_LINE_LENGTH - 2"
  by (auto simp add: file_session_def dest: Fgets_reads)

text \<open>The calls for a list of files.\<close>

lemma sessions_opened: "list_all2 (file_session fs) ps ess \<Longrightarrow> opened (concat ess) = ps"
  by (induction rule: list_all2_induct) (simp_all add: opened_append session_opened)

lemma sessions_handles:
  "list_all2 (file_session fs) ps ess \<Longrightarrow>
   foldl track [] (concat ess) = [] \<and> at_most_one [] (concat ess)"
  by (induction rule: list_all2_induct) (simp_all add: at_most_one_append session_handles)

lemma sessions_writes:
  "list_all2 (file_session fs) ps ess \<Longrightarrow>
   writes (concat ess) =
     concat (map (\<lambda>p. map (takeWhile (\<lambda>c. c \<noteq> NUL)) (chunks (the (fs p)))) ps)"
  by (induction rule: list_all2_induct) (simp_all add: writes_append session_writes)

lemma sessions_read_sizes:
  "list_all2 (file_session fs) ps ess \<Longrightarrow>
   read_sizes (concat ess) = concat (map (\<lambda>p. map length (chunks (the (fs p))) @ [0]) ps)"
  by (induction rule: list_all2_induct) (simp_all add: read_sizes_append session_read_sizes)

lemma sessions_read_then_print:
  "list_all2 (file_session fs) ps ess \<Longrightarrow> read_then_print (concat ess)"
  by (induction rule: list_all2_induct)
    (simp_all add: read_then_print_append session_read_then_print)

lemma sessions_Fgets:
  "list_all2 (file_session fs) ps ess \<Longrightarrow> Fgets q k \<in> set (concat ess) \<Longrightarrow>
   q \<in> set ps \<and> k \<le> MAX_LINE_LENGTH - 2"
  by (induction rule: list_all2_induct) (auto dest: session_Fgets)

lemma run_read_sizes:
  fixes fs :: filesystem and args :: "path list"
  assumes "length line0 = MAX_LINE_LENGTH"
  shows "read_sizes (calls (run fs line0 args)) =
     concat (map (\<lambda>p. map length (chunks (the (fs p))) @ [0])
       (takeWhile (\<lambda>q. fs q \<noteq> None) args))"
proof -
  from run_shape [OF assms, of fs args]
  obtain ess code bytes tail where ess: "list_all2 (file_session fs) (takeWhile (\<lambda>q. fs q \<noteq> None) args) ess"
    and r: "run fs line0 args = Inr (code, \<lparr>out = bytes, log = concat ess @ tail\<rparr>)"
    and tail: "tail = [] \<or> (\<exists>q. tail = [Fopen_failed q, Printf_msg])"
    by blast
  from tail have "read_sizes tail = []"
    by auto
  with r show ?thesis
    by (simp add: calls_def read_sizes_append sessions_read_sizes [OF ess])
qed

subsection \<open>The program without the forced terminator\<close>

lemma early_NUL_append: "early_NUL (xs @ ys) \<longleftrightarrow> early_NUL xs \<and> early_NUL ys"
  by (auto simp add: early_NUL_def)

lemma drain_unforced_eof: "drain_unforced p line [] w = Inr (line, emit (Fgets p 0) w)"
  by (simp add: drain_unforced.simps fgets_eof)

lemma drain_unforced_step:
  assumes "f \<noteq> []" and "length line = MAX_LINE_LENGTH"
  defines "g \<equiv> read_chars (MAX_LINE_LENGTH - 2) f"
  defines "b \<equiv> g @ NUL # drop (length g + 1) line"
  shows "drain_unforced p line f w =
           drain_unforced p b (drop (length g) f)
             (w\<lparr>out := out w @ takeWhile (\<lambda>c. c \<noteq> NUL) g,
               log := log w @ [Fgets p (length g), Printf_s b]\<rparr>)"
    and "length b = MAX_LINE_LENGTH"
    and "NUL \<in> set (take (MAX_LINE_LENGTH - 1) b)"
proof -
  have gl: "length g \<le> MAX_LINE_LENGTH - 2"
    unfolding g_def by (rule read_chars_length)
  show len: "length b = MAX_LINE_LENGTH"
    unfolding b_def using assms(2) gl by (rule stored_length)
  have lt: "length g < length (take (MAX_LINE_LENGTH - 1) b)"
    using gl len by (simp add: MAX_LINE_LENGTH_def)
  then have "take (MAX_LINE_LENGTH - 1) b ! length g = b ! length g"
    by simp
  also have "b ! length g = NUL"
    by (simp add: b_def)
  finally show "NUL \<in> set (take (MAX_LINE_LENGTH - 1) b)"
    using nth_mem [OF lt] by simp
  have "length g < length b"
    using gl len by (simp add: MAX_LINE_LENGTH_def)
  then have cs: "c_str b = Inr (takeWhile (\<lambda>c. c \<noteq> NUL) g)"
    by (rule c_str_terminated) (simp_all add: b_def)
  have fg: "fgets line (MAX_LINE_LENGTH - 1) f = Some (b, drop (length g) f)"
    unfolding g_def b_def using assms(1) by (rule fgets_step)
  have n: "length f - length (drop (length g) f) = length g"
    using read_chars_length_le [of "MAX_LINE_LENGTH - 2" f] by (simp add: g_def)
  have "drain_unforced p line f w =
      (case printf_s b (emit (Fgets p (length g)) w) of
         Inl e \<Rightarrow> Inl e
       | Inr w' \<Rightarrow> drain_unforced p b (drop (length g) f) w')"
    by (subst drain_unforced.simps) (simp only: fg option.case prod.case n)
  also have "printf_s b (emit (Fgets p (length g)) w) =
      Inr (w\<lparr>out := out w @ takeWhile (\<lambda>c. c \<noteq> NUL) g,
               log := log w @ [Fgets p (length g), Printf_s b]\<rparr>)"
    by (simp add: printf_s_def emit_def cs)
  finally show "drain_unforced p line f w =
           drain_unforced p b (drop (length g) f)
             (w\<lparr>out := out w @ takeWhile (\<lambda>c. c \<noteq> NUL) g,
               log := log w @ [Fgets p (length g), Printf_s b]\<rparr>)"
    by simp
qed

lemma shown_chunks_Nil: "shown (chunks []) = []"
  by (simp add: chunks_Nil shown_def)

lemma shown_chunks_Cons:
  "f \<noteq> [] \<Longrightarrow> shown (chunks f) =
     takeWhile (\<lambda>c. c \<noteq> NUL) (read_chars (MAX_LINE_LENGTH - 2) f)
       @ shown (chunks (drop (length (read_chars (MAX_LINE_LENGTH - 2) f)) f))"
  by (subst chunks_Cons) (simp_all add: shown_def)

lemma drain_unforced_result:
  "length line = MAX_LINE_LENGTH \<Longrightarrow>
   \<exists>line' es. drain_unforced p line f w =
       Inr (line', w\<lparr>out := out w @ shown (chunks f), log := log w @ es\<rparr>) \<and>
     length line' = MAX_LINE_LENGTH \<and> early_NUL es"
proof (induction f arbitrary: line w rule: chunks.induct)
  case (1 f)
  show ?case
  proof (cases "f = []")
    case True
    have "drain_unforced p line f w =
       Inr (line, w\<lparr>out := out w @ shown (chunks f), log := log w @ [Fgets p 0]\<rparr>)"
      by (simp add: True drain_unforced_eof emit_def shown_chunks_Nil)
    moreover have "early_NUL [Fgets p 0]"
      by (simp add: early_NUL_def)
    ultimately show ?thesis
      using "1.prems" by blast
  next
    case False
    define g where "g = read_chars (MAX_LINE_LENGTH - 2) f"
    define b where "b = g @ NUL # drop (length g + 1) line"
    define w1 where "w1 = w\<lparr>out := out w @ takeWhile (\<lambda>c. c \<noteq> NUL) g,
               log := log w @ [Fgets p (length g), Printf_s b]\<rparr>"
    have step: "drain_unforced p line f w = drain_unforced p b (drop (length g) f) w1"
      and len: "length b = MAX_LINE_LENGTH"
      and nul: "NUL \<in> set (take (MAX_LINE_LENGTH - 1) b)"
      unfolding g_def b_def w1_def using False "1.prems" by (rule drain_unforced_step)+
    from "1.IH" [OF False len, of w1, folded g_def]
    obtain line' es where r: "drain_unforced p b (drop (length g) f) w1 =
         Inr (line', w1\<lparr>out := out w1 @ shown (chunks (drop (length g) f)),
                         log := log w1 @ es\<rparr>)"
      and len': "length line' = MAX_LINE_LENGTH"
      and es: "early_NUL es"
      by blast
    have "w1\<lparr>out := out w1 @ shown (chunks (drop (length g) f)), log := log w1 @ es\<rparr> =
          w\<lparr>out := out w @ shown (chunks f),
            log := log w @ [Fgets p (length g), Printf_s b] @ es\<rparr>"
      by (simp add: w1_def shown_chunks_Cons [OF False] g_def)
    with step r have "drain_unforced p line f w =
       Inr (line', w\<lparr>out := out w @ shown (chunks f),
                     log := log w @ [Fgets p (length g), Printf_s b] @ es\<rparr>)"
      by simp
    moreover have "early_NUL ([Fgets p (length g), Printf_s b] @ es)"
      unfolding early_NUL_append using es nul by (simp add: early_NUL_def)
    ultimately show ?thesis
      using len' by blast
  qed
qed

lemma cat_from_unforced_done:
  "length argv \<le> i \<Longrightarrow> cat_from_unforced fs argv i line w = Inr (0, w)"
  by (subst cat_from_unforced.simps) simp

lemma cat_from_unforced_fail:
  "i < length argv \<Longrightarrow> fs (argv ! i) = None \<Longrightarrow>
   cat_from_unforced fs argv i line w =
     Inr (1, w\<lparr>out := out w @ cannot_open,
               log := log w @ [Fopen_failed (argv ! i), Printf_msg]\<rparr>)"
  by (subst cat_from_unforced.simps) (simp add: printf_msg_def emit_def)

lemma cat_from_unforced_file:
  "i < length argv \<Longrightarrow> fs (argv ! i) = Some c \<Longrightarrow>
   drain_unforced (argv ! i) line c (emit (Fopen (argv ! i)) w) = Inr (line', w') \<Longrightarrow>
   cat_from_unforced fs argv i line w =
     cat_from_unforced fs argv (i + 1) line' (emit (Fclose (argv ! i)) w')"
  by (subst cat_from_unforced.simps) simp

lemma cat_from_unforced_result:
  assumes "length line = MAX_LINE_LENGTH"
    and "drop i argv = pre @ post"
    and "\<forall>q \<in> set pre. fs q \<noteq> None"
    and "post \<noteq> [] \<Longrightarrow> fs (hd post) = None"
  shows "\<exists>es. early_NUL es \<and>
     cat_from_unforced fs argv i line w =
       Inr (if post = [] then 0 else 1,
            w\<lparr>out := out w @ printed fs pre @ (if post = [] then [] else cannot_open),
              log := log w @ es\<rparr>)"
  using assms(1-3)
proof (induction pre arbitrary: i line w)
  case Nil
  show ?case
  proof (cases "post = []")
    case True
    with Nil have "length argv \<le> i"
      by simp
    then have "cat_from_unforced fs argv i line w = Inr (0, w)"
      by (rule cat_from_unforced_done)
    then have "cat_from_unforced fs argv i line w =
       Inr (if post = [] then 0 else 1,
            w\<lparr>out := out w @ printed fs [] @ (if post = [] then [] else cannot_open),
              log := log w @ []\<rparr>)"
      using True by (simp add: printed_Nil)
    moreover have "early_NUL []"
      by (simp add: early_NUL_def)
    ultimately show ?thesis
      by blast
  next
    case False
    with Nil have i: "i < length argv" and "argv ! i = hd post"
      by (auto simp add: hd_drop_conv_nth [symmetric] intro: ccontr)
    with assms(4) False have "cat_from_unforced fs argv i line w =
       Inr (1, w\<lparr>out := out w @ cannot_open,
               log := log w @ [Fopen_failed (hd post), Printf_msg]\<rparr>)"
      using cat_from_unforced_fail [of i argv fs line w] by simp
    then have "cat_from_unforced fs argv i line w =
       Inr (if post = [] then 0 else 1,
            w\<lparr>out := out w @ printed fs [] @ (if post = [] then [] else cannot_open),
              log := log w @ [Fopen_failed (hd post), Printf_msg]\<rparr>)"
      using False by (simp add: printed_Nil)
    moreover have "early_NUL [Fopen_failed (hd post), Printf_msg]"
      by (simp add: early_NUL_def)
    ultimately show ?thesis
      by blast
  qed
next
  case (Cons q pre)
  from Cons.prems(2) have i: "i < length argv"
    by (auto intro: ccontr)
  with Cons.prems(2) have q: "argv ! i = q" and rest: "drop (i + 1) argv = pre @ post"
    by (simp_all add: Cons_nth_drop_Suc [symmetric])
  from Cons.prems(3) obtain c where c: "fs q = Some c"
    by auto
  define w1 where "w1 = emit (Fopen q) w"
  from drain_unforced_result [OF Cons.prems(1), of q c w1]
  obtain line' ds where d: "drain_unforced q line c w1 =
       Inr (line', w1\<lparr>out := out w1 @ shown (chunks c), log := log w1 @ ds\<rparr>)"
    and len: "length line' = MAX_LINE_LENGTH"
    and ds: "early_NUL ds"
    by blast
  define w2 where "w2 = emit (Fclose q)
    (w1\<lparr>out := out w1 @ shown (chunks c), log := log w1 @ ds\<rparr>)"
  have step: "cat_from_unforced fs argv i line w = cat_from_unforced fs argv (i + 1) line' w2"
    unfolding w2_def using i c d cat_from_unforced_file [of i argv fs c line w line']
    by (simp add: q w1_def)
  from Cons.prems(3) have "\<forall>q \<in> set pre. fs q \<noteq> None"
    by simp
  from Cons.IH [OF len rest this, of w2]
  obtain es where es: "early_NUL es"
    and r: "cat_from_unforced fs argv (i + 1) line' w2 =
       Inr (if post = [] then 0 else 1,
            w2\<lparr>out := out w2 @ printed fs pre @ (if post = [] then [] else cannot_open),
              log := log w2 @ es\<rparr>)"
    by blast
  have "early_NUL (Fopen q # ds @ Fclose q # es)"
    using ds es by (auto simp add: early_NUL_def)
  moreover have "w2\<lparr>out := out w2 @ printed fs pre @ (if post = [] then [] else cannot_open),
              log := log w2 @ es\<rparr> =
      w\<lparr>out := out w @ printed fs (q # pre) @ (if post = [] then [] else cannot_open),
              log := log w @ Fopen q # ds @ Fclose q # es\<rparr>"
    by (simp add: w2_def w1_def emit_def printed_Cons c)
  ultimately show ?case
    using step r by (metis (no_types))
qed

lemma main_unforced_cat_from:
  "main_unforced fs line0 (a # args) = cat_from_unforced fs (a # args) 1 line0 w0"
proof (cases args)
  case Nil
  then show ?thesis
    by (simp add: main_unforced_def cat_from_unforced_done)
next
  case (Cons q qs)
  then show ?thesis
    by (simp add: main_unforced_def)
qed

lemma run_unforced_total:
  fixes fs :: filesystem and args :: "path list"
  assumes "length line0 = MAX_LINE_LENGTH"
  defines "pre \<equiv> takeWhile (\<lambda>q. fs q \<noteq> None) args"
  defines "post \<equiv> dropWhile (\<lambda>q. fs q \<noteq> None) args"
  shows "\<exists>es. early_NUL es \<and>
     run_unforced fs line0 args =
       Inr (if post = [] then 0 else 1,
            \<lparr>out = printed fs pre @ (if post = [] then [] else cannot_open), log = es\<rparr>)"
proof -
  have "drop 1 (''wcat'' # args) = pre @ post"
    by (simp add: pre_def post_def)
  moreover have "\<forall>q \<in> set pre. fs q \<noteq> None"
    unfolding pre_def by (auto dest: set_takeWhileD)
  moreover have "fs (hd post) = None" if "post \<noteq> []"
    using that hd_dropWhile [of "\<lambda>q. fs q \<noteq> None" args] by (simp add: post_def)
  ultimately show ?thesis
    using cat_from_unforced_result [OF assms(1), of 1 "''wcat'' # args" pre post fs w0]
    by (simp add: run_unforced_def main_unforced_cat_from w0_def)
qed

subsection \<open>The reads and the writes against the bytes of the files\<close>

lemma read_chars_take: "take (length (read_chars k f)) f = read_chars k f"
  by (induction k f rule: read_chars.induct) simp_all

lemma read_chars_size:
  "length (read_chars k f) =
     min k (min (length f) (Suc (length (takeWhile (\<lambda>c. c \<noteq> newline) f))))"
  by (induction k f rule: read_chars.induct) simp_all

lemma load_size_read_chars: "length (read_chars (MAX_LINE_LENGTH - 2) f) = load_size f"
  by (simp add: read_chars_size load_size_def MAX_LINE_LENGTH_def)

lemma load_read_chars: "read_chars (MAX_LINE_LENGTH - 2) f = take (load_size f) f"
  using read_chars_take [of "MAX_LINE_LENGTH - 2" f] by (simp add: load_size_read_chars)

lemma load_size_Nil: "load_size [] = 0"
  by (simp add: load_size_def)

lemma load_size_pos: "f \<noteq> [] \<Longrightarrow> 0 < load_size f"
  by (cases f) (simp_all add: load_size_def)

lemma chunks_load:
  assumes "f \<noteq> []"
  shows "chunks f = take (load_size f) f # chunks (drop (load_size f) f)"
proof -
  from chunks_Cons [OF assms]
  have "chunks f = read_chars (MAX_LINE_LENGTH - 2) f # chunks (drop (load_size f) f)"
    by (simp only: load_size_read_chars)
  then show ?thesis
    by (simp only: load_read_chars)
qed

lemma reads_follow_file:
  "reads_follow (f # fs) (map length (chunks f) @ 0 # ks) \<longleftrightarrow> reads_follow fs ks"
proof (induction f rule: chunks.induct)
  case (1 f)
  show ?case
  proof (cases "f = []")
    case True
    then show ?thesis
      by (simp add: chunks_Nil load_size_Nil)
  next
    case False
    have le: "load_size f \<le> length f"
      by (simp add: load_size_def)
    from False have pos: "0 < load_size f"
      by (rule load_size_pos)
    from "1.IH" [OF False] have "reads_follow (drop (load_size f) f # fs)
        (map length (chunks (drop (load_size f) f)) @ 0 # ks) \<longleftrightarrow> reads_follow fs ks"
      by (simp add: load_size_read_chars)
    with le pos show ?thesis
      by (simp add: chunks_load [OF False] min_absorb2)
  qed
qed

lemma reads_follow_files:
  "reads_follow cs (concat (map (\<lambda>c. map length (chunks c) @ [0]) cs))"
  by (induction cs) (simp_all add: reads_follow_file)

lemma writes_follow_Nil: "writes_follow [] ws \<longleftrightarrow> ws = []"
  by (simp add: writes_follow.simps)

lemma writes_follow_file:
  "writes_follow (f # fs) (map (takeWhile (\<lambda>c. c \<noteq> NUL)) (chunks f) @ ws) \<longleftrightarrow>
   writes_follow fs ws"
proof (induction f rule: chunks.induct)
  case (1 f)
  show ?case
  proof (cases "f = []")
    case True
    then show ?thesis
      by (simp add: chunks_Nil writes_follow.simps(2) [of "[]"])
  next
    case False
    from "1.IH" [OF False] have "writes_follow (drop (load_size f) f # fs)
        (map (takeWhile (\<lambda>c. c \<noteq> NUL)) (chunks (drop (load_size f) f)) @ ws) \<longleftrightarrow>
        writes_follow fs ws"
      by (simp add: load_size_read_chars)
    with False show ?thesis
      by (subst writes_follow.simps(2)) (simp add: chunks_load [OF False])
  qed
qed

lemma writes_follow_files:
  "writes_follow cs (concat (map (\<lambda>c. map (takeWhile (\<lambda>c. c \<noteq> NUL)) (chunks c)) cs))"
  by (induction cs) (simp_all add: writes_follow_file writes_follow_Nil)

lemma contents_the: "map fs ps = map Some cs \<Longrightarrow> map (\<lambda>p. the (fs p)) ps = cs"
  by (induction ps arbitrary: cs) auto

lemma load_size_long: "load_size (replicate 1000 (CHR ''a'') @ [newline]) = 998"
  by (simp add: load_size_def takeWhile_append)

lemma reads_follow_long:
  "reads_follow [replicate 1000 (CHR ''a'') @ [newline]] ks \<Longrightarrow> ks = [998, 3, 0]"
proof -
  assume a: "reads_follow [replicate 1000 (CHR ''a'') @ [newline]] ks"
  then obtain ks1 where 1: "ks = 998 # ks1" and b: "reads_follow [replicate 2 (CHR ''a'') @ [newline]] ks1"
    by (cases ks) (simp_all add: load_size_long)
  from b obtain ks2 where 2: "ks1 = 3 # ks2" and c: "reads_follow [[]] ks2"
    by (cases ks1) (simp_all add: load_size_def takeWhile_append)
  from c have "ks2 = [0]"
    by (cases ks2) (simp_all add: load_size_def)
  with 1 2 show ?thesis
    by simp
qed

subsection \<open>The concrete inputs\<close>

lemma garbage_length: "length garbage = MAX_LINE_LENGTH"
  by (simp add: garbage_def)

lemma zeros_length: "length zeros = MAX_LINE_LENGTH"
  by (simp add: zeros_def)

section \<open>Concatenation\<close>

text \<open>
  C1, as the program has it. When every file of the argument list opens, with contents
  \<open>cs\<close>, and no file holds a terminator byte (NUL), the program returns exit code 0 and
  standard output is exactly the concatenation of the contents, in argument order.
\<close>

theorem run_concatenates:
  assumes "length line0 = MAX_LINE_LENGTH"
    and "map fs args = map Some cs"
    and "\<forall>c \<in> set cs. NUL \<notin> set c"
  shows "\<exists>w. run fs line0 args = Inr (0, w) \<and> out w = concat cs"
proof -
  have "args = args @ []" and "\<forall>q \<in> set args. fs q \<noteq> None"
    using readable [OF assms(2)] by simp_all
  from run_result [OF assms(1) this]
  show ?thesis
    by (auto simp add: printed_faithful [OF assms(2,3)])
qed

text \<open>The scenario \<^verbatim>\<open>wcat a.txt b.txt\<close> of the specification.\<close>

theorem run_concatenates_witness:
  "\<exists>w. run fs_hello garbage [''a.txt'', ''b.txt''] = Inr (0, w) \<and>
     out w = ''hello'' @ [newline] @ ''world'' @ [newline]"
  using run_concatenates [OF garbage_length, of fs_hello "[''a.txt'', ''b.txt'']"
      "[''hello'' @ [newline], ''world'' @ [newline]]"]
  by (simp add: fs_hello_def)

text \<open>
  Without the condition on NUL the statement fails: of a readable file that holds
  the bytes \<^verbatim>\<open>ab\<close>, NUL, \<^verbatim>\<open>cd\<close> only \<^verbatim>\<open>ab\<close> is written, with exit code 0.
\<close>

theorem nul_file_cut_short:
  "map fs_nul [''n.bin''] = map Some [''ab'' @ NUL # ''cd''] \<and>
   exit_code (run fs_nul garbage [''n.bin'']) = Some 0 \<and>
   stdout (run fs_nul garbage [''n.bin'']) = Some ''ab'' \<and>
   ''ab'' \<noteq> concat [''ab'' @ NUL # ''cd'']"
proof -
  have "printed fs_nul [''n.bin''] = ''ab''"
    by code_simp
  then show ?thesis
    by (simp add: run_stdout [OF garbage_length] run_exit_code [OF garbage_length] fs_nul_def)
qed

section \<open>Failing fast\<close>

text \<open>
  C2, as the program has it. When the files of \<open>pre\<close> open, with contents \<open>cs\<close> free of
  NUL, and the next path \<open>p\<close> does not, the program returns exit code 1, standard output
  is the concatenation of \<open>cs\<close> followed by the diagnostic line, the calls of
  \<^verbatim>\<open>fopen\<close> are exactly those for \<open>pre\<close> and for \<open>p\<close>, and nothing is read but files
  of \<open>pre\<close>: the paths behind \<open>p\<close> are never touched.
\<close>

theorem run_fails_fast:
  assumes "length line0 = MAX_LINE_LENGTH"
    and "map fs pre = map Some cs"
    and "\<forall>c \<in> set cs. NUL \<notin> set c"
    and "fs p = None"
  shows "\<exists>w. run fs line0 (pre @ p # post) = Inr (1, w) \<and>
           out w = concat cs @ cannot_open \<and>
           opened (log w) = pre @ [p] \<and>
           (\<forall>q k. Fgets q k \<in> set (log w) \<longrightarrow> q \<in> set pre)"
proof -
  have "pre @ p # post = pre @ (p # post)" and "\<forall>q \<in> set pre. fs q \<noteq> None"
    using readable [OF assms(2)] by simp_all
  from run_result [OF assms(1) this] assms(4)
  obtain ess where ess: "list_all2 (file_session fs) pre ess"
    and r: "run fs line0 (pre @ p # post) =
       Inr (1, \<lparr>out = printed fs pre @ cannot_open,
                log = concat ess @ [Fopen_failed p, Printf_msg]\<rparr>)"
    by auto
  have "opened (concat ess @ [Fopen_failed p, Printf_msg]) = pre @ [p]"
    by (simp add: opened_append sessions_opened [OF ess])
  moreover have "q \<in> set pre" if "Fgets q k \<in> set (concat ess @ [Fopen_failed p, Printf_msg])"
    for q k
    using that sessions_Fgets [OF ess, of q k] by simp
  ultimately show ?thesis
    using r by (auto simp add: printed_faithful [OF assms(2,3)])
qed

text \<open>A missing file between the two files of the scenario.\<close>

theorem run_fails_fast_witness:
  "\<exists>w. run fs_hello garbage [''a.txt'', ''missing.txt'', ''b.txt''] = Inr (1, w) \<and>
     out w = ''hello'' @ [newline] @ cannot_open \<and>
     opened (log w) = [''a.txt'', ''missing.txt'']"
  using run_fails_fast [OF garbage_length, of fs_hello "[''a.txt'']" "[''hello'' @ [newline]]"
      "''missing.txt''" "[''b.txt'']"]
  by (auto simp add: fs_hello_def)

text \<open>
  Without the condition on NUL the statement fails: after a file that holds
  the bytes \<^verbatim>\<open>ab\<close>, NUL, \<^verbatim>\<open>cd\<close> the output is \<^verbatim>\<open>ab\<close> and the diagnostic line.
\<close>

theorem nul_file_then_missing:
  "map fs_nul [''n.bin''] = map Some [''ab'' @ NUL # ''cd''] \<and> fs_nul ''missing'' = None \<and>
   exit_code (run fs_nul garbage [''n.bin'', ''missing'', ''n.bin'']) = Some 1 \<and>
   stdout (run fs_nul garbage [''n.bin'', ''missing'', ''n.bin'']) = Some (''ab'' @ cannot_open) \<and>
   ''ab'' @ cannot_open \<noteq> concat [''ab'' @ NUL # ''cd''] @ cannot_open"
proof -
  have "printed fs_nul [''n.bin''] = ''ab''"
    by code_simp
  then show ?thesis
    by (simp add: run_stdout [OF garbage_length] run_exit_code [OF garbage_length] fs_nul_def)
qed

section \<open>No arguments\<close>

text \<open>
  C3. Started with no file paths, the program returns exit code 0 and writes nothing to
  standard output (and calls nothing).
\<close>

theorem run_no_arguments: "run fs line0 [] = Inr (0, \<lparr>out = [], log = []\<rparr>)"
  by (simp add: run_def main_def w0_def)

section \<open>The size of a read\<close>

text \<open>
  C4, as the program has it. \<^verbatim>\<open>fgets\<close> is called with the size \<open>MAX_LINE_LENGTH - 1\<close>,
  which counts the terminator it writes: in every run, whatever the arguments and the
  files, each read takes at most 998 bytes from its file. More precisely, the reads of
  the run are those of the files that open (the arguments before the first that does
  not), file after file, and each read takes up to 998 bytes, or up to and including the
  next newline, or up to the end of the file, whichever comes first, from where the read
  before it stopped; each file's last read takes nothing.
\<close>

theorem read_takes_at_most_998:
  fixes fs :: filesystem and args :: "path list"
  assumes "length line0 = MAX_LINE_LENGTH"
  shows "\<exists>code w. run fs line0 args = Inr (code, w) \<and>
           (\<forall>p k. Fgets p k \<in> set (log w) \<longrightarrow> k \<le> 998) \<and>
           reads_follow (map (\<lambda>q. the (fs q)) (takeWhile (\<lambda>q. fs q \<noteq> None) args))
             (read_sizes (log w))"
proof -
  let ?pre = "takeWhile (\<lambda>q. fs q \<noteq> None) args"
  from run_shape [OF assms, of fs args]
  obtain ess code bytes tail where ess: "list_all2 (file_session fs) ?pre ess"
    and r: "run fs line0 args = Inr (code, \<lparr>out = bytes, log = concat ess @ tail\<rparr>)"
    and tail: "tail = [] \<or> (\<exists>q. tail = [Fopen_failed q, Printf_msg])"
    by blast
  have "k \<le> 998" if "Fgets p k \<in> set (concat ess @ tail)" for p k
  proof -
    from that tail have "Fgets p k \<in> set (concat ess)"
      by auto
    from sessions_Fgets [OF ess this] show ?thesis
      by (simp add: MAX_LINE_LENGTH_def)
  qed
  moreover have "reads_follow (map (\<lambda>q. the (fs q)) ?pre) (read_sizes (concat ess @ tail))"
  proof -
    from tail have "read_sizes tail = []"
      by auto
    then have "read_sizes (concat ess @ tail) =
        concat (map (\<lambda>c. map length (chunks c) @ [0]) (map (\<lambda>q. the (fs q)) ?pre))"
      by (simp add: read_sizes_append sessions_read_sizes [OF ess] comp_def)
    then show ?thesis
      by (simp only: reads_follow_files)
  qed
  ultimately show ?thesis
    using r by simp
qed

text \<open>
  The line of 1000 bytes and its newline is read as 998 bytes, then 2 bytes and the
  newline, then the read at the end of the file.
\<close>

theorem read_takes_at_most_998_witness:
  "\<exists>code w. run fs_long garbage [''long.txt''] = Inr (code, w) \<and>
     \<not> (\<exists>p k. Fgets p k \<in> set (log w) \<and> 998 < k) \<and>
     read_sizes (log w) = [998, 3, 0]"
proof -
  from read_takes_at_most_998 [OF garbage_length, of fs_long "[''long.txt'']"]
  obtain code w where r: "run fs_long garbage [''long.txt''] = Inr (code, w)"
    and le: "\<forall>p k. Fgets p k \<in> set (log w) \<longrightarrow> k \<le> 998"
    and f: "reads_follow [replicate 1000 (CHR ''a'') @ [newline]] (read_sizes (log w))"
    by (auto simp add: fs_long_def)
  from f have "read_sizes (log w) = [998, 3, 0]"
    by (rule reads_follow_long)
  moreover from le have "\<not> (\<exists>p k. Fgets p k \<in> set (log w) \<and> 998 < k)"
    by (auto simp add: not_less)
  ultimately show ?thesis
    using r by blast
qed

text \<open>
  A read does not deliver 999 bytes: a file of 999 bytes without a newline is read in
  two loads, of 998 bytes and of 1 byte, before the read that finds the end of the file.
\<close>

theorem read_of_999_bytes_takes_998:
  "fs_999 ''l999'' = Some (replicate 999 (CHR ''a'')) \<and>
   read_sizes (calls (run fs_999 garbage [''l999''])) = [998, 1, 0]"
proof -
  have a: "CHR ''a'' \<noteq> newline"
    by simp
  have "chunks (replicate 999 (CHR ''a'')) = replicate 998 (CHR ''a'') # chunks (replicate 1 (CHR ''a''))"
    by (subst chunks_replicate [OF a]) (simp add: MAX_LINE_LENGTH_def)
  also have "chunks (replicate 1 (CHR ''a'')) = [replicate 1 (CHR ''a'')]"
    by (subst chunks_replicate [OF a]) (simp add: MAX_LINE_LENGTH_def chunks_Nil)
  finally have "map length (chunks (replicate 999 (CHR ''a''))) = [998, 1]"
    by simp
  then show ?thesis
    by (simp add: run_read_sizes [OF garbage_length] fs_999_def)
qed

section \<open>Long lines\<close>

text \<open>
  C5. A file that is a single line of more than 999 bytes, with no NUL byte in it (the
  newline, if there is one, is its last byte), is reproduced byte for byte with exit
  code 0: the line goes through the buffer in two or more loads, each written by its own
  \<^verbatim>\<open>printf\<close>, and the writes concatenate to the content.
\<close>

theorem long_line_reproduced:
  assumes "length line0 = MAX_LINE_LENGTH"
    and "fs p = Some c"
    and "999 < length c"
    and "NUL \<notin> set c"
    and "newline \<notin> set (butlast c)"
  shows "\<exists>w. run fs line0 [p] = Inr (0, w) \<and> out w = c \<and>
           concat (writes (log w)) = c \<and> 2 \<le> length (writes (log w))"
proof -
  have "[p] = [p] @ []" and "\<forall>q \<in> set [p]. fs q \<noteq> None"
    using assms(2) by simp_all
  from run_result [OF assms(1) this]
  obtain ess where ess: "list_all2 (file_session fs) [p] ess"
    and r: "run fs line0 [p] = Inr (0, \<lparr>out = printed fs [p], log = concat ess\<rparr>)"
    by auto
  have p: "printed fs [p] = c"
    using assms(2,4) by (simp add: printed_Cons printed_Nil shown_faithful)
  have w: "writes (concat ess) = map (takeWhile (\<lambda>c. c \<noteq> NUL)) (chunks c)"
    using sessions_writes [OF ess] assms(2) by simp
  then have "concat (writes (concat ess)) = c"
    using shown_faithful [OF assms(4)] by (simp add: shown_def)
  moreover have "2 \<le> length (writes (concat ess))"
    using chunks_two [of c] assms(3) by (simp add: w MAX_LINE_LENGTH_def)
  ultimately show ?thesis
    using r p by simp
qed

theorem long_line_reproduced_witness:
  "\<exists>w. run fs_long garbage [''long.txt''] = Inr (0, w) \<and>
     out w = replicate 1000 (CHR ''a'') @ [newline] \<and>
     concat (writes (log w)) = replicate 1000 (CHR ''a'') @ [newline] \<and>
     2 \<le> length (writes (log w))"
  using long_line_reproduced [OF garbage_length, of fs_long "''long.txt''"
      "replicate 1000 (CHR ''a'') @ [newline]"]
  by (simp add: fs_long_def)

section \<open>The forced terminator\<close>

text \<open>
  C6. In every run, each read that returned data is followed at once by the
  \<^verbatim>\<open>printf\<close> of the buffer, whose last byte has been set to NUL by then; the buffer
  is printed at no other moment, and no \<^verbatim>\<open>printf\<close> reads past its end (the run ends
  with an exit code, not with \<open>Out_of_bounds\<close>). The forced byte alone is enough for
  that: whatever a read leaves in the \<open>MAX_LINE_LENGTH\<close> bytes of the buffer, once its
  last byte is NUL the string \<^verbatim>\<open>%s\<close> prints ends inside the buffer.
\<close>

theorem buffer_terminated_before_use:
  assumes "length line0 = MAX_LINE_LENGTH"
  shows "(\<exists>code w. run fs line0 args = Inr (code, w) \<and> read_then_print (log w)) \<and>
         (\<forall>b. length b = MAX_LINE_LENGTH \<longrightarrow>
              (\<exists>s. c_str (b[MAX_LINE_LENGTH - 1 := NUL]) = Inr s))"
proof
  from run_shape [OF assms, of fs args]
  obtain ess code bytes tail where ess: "list_all2 (file_session fs) (takeWhile (\<lambda>q. fs q \<noteq> None) args) ess"
    and r: "run fs line0 args = Inr (code, \<lparr>out = bytes, log = concat ess @ tail\<rparr>)"
    and tail: "tail = [] \<or> (\<exists>q. tail = [Fopen_failed q, Printf_msg])"
    by blast
  from tail have "read_then_print tail"
    by auto
  with sessions_read_then_print [OF ess] have "read_then_print (concat ess @ tail)"
    by (rule read_then_print_append)
  with r show "\<exists>code w. run fs line0 args = Inr (code, w) \<and> read_then_print (log w)"
    by simp
next
  show "\<forall>b. length b = MAX_LINE_LENGTH \<longrightarrow>
          (\<exists>s. c_str (b[MAX_LINE_LENGTH - 1 := NUL]) = Inr s)"
    using forced_c_str by blast
qed

text \<open>
  The scenario's two files, started on a buffer that holds no terminator at all.
\<close>

theorem buffer_terminated_before_use_witness:
  "(\<exists>code w. run fs_hello garbage [''a.txt'', ''b.txt''] = Inr (code, w) \<and>
     read_then_print (log w)) \<and>
   (\<exists>s. c_str (garbage[MAX_LINE_LENGTH - 1 := NUL]) = Inr s)"
  using buffer_terminated_before_use [OF garbage_length, of fs_hello "[''a.txt'', ''b.txt'']"]
    garbage_length
  by blast

section \<open>One handle at a time\<close>

text \<open>
  C7. In every run, after any number of the program's calls at most one file handle is
  open, and none is open when the program returns, with exit code 0 or after a failed
  \<^verbatim>\<open>fopen\<close>.
\<close>

theorem one_handle_at_a_time:
  assumes "length line0 = MAX_LINE_LENGTH"
  shows "\<exists>code w. run fs line0 args = Inr (code, w) \<and>
           (\<forall>n \<le> length (log w). length (open_handles (take n (log w))) \<le> 1) \<and>
           open_handles (log w) = []"
proof -
  from run_shape [OF assms, of fs args]
  obtain ess code bytes tail where ess: "list_all2 (file_session fs) (takeWhile (\<lambda>q. fs q \<noteq> None) args) ess"
    and r: "run fs line0 args = Inr (code, \<lparr>out = bytes, log = concat ess @ tail\<rparr>)"
    and tail: "tail = [] \<or> (\<exists>q. tail = [Fopen_failed q, Printf_msg])"
    by blast
  from tail have t: "foldl track [] tail = [] \<and> at_most_one [] tail"
    by auto
  with sessions_handles [OF ess]
  have "foldl track [] (concat ess @ tail) = []" and "at_most_one [] (concat ess @ tail)"
    by (simp_all add: at_most_one_append)
  then show ?thesis
    using r by (simp add: open_handles_def at_most_one_prefixes)
qed

theorem one_handle_at_a_time_witness:
  "\<exists>code w. run fs_hello garbage [''a.txt'', ''missing.txt'', ''b.txt''] = Inr (code, w) \<and>
     length (open_handles (take 2 (log w))) \<le> 1 \<and> open_handles (log w) = []"
proof -
  from one_handle_at_a_time [OF garbage_length, of fs_hello "[''a.txt'', ''missing.txt'', ''b.txt'']"]
  obtain code w where r: "run fs_hello garbage [''a.txt'', ''missing.txt'', ''b.txt''] = Inr (code, w)"
    and one: "\<forall>n \<le> length (log w). length (open_handles (take n (log w))) \<le> 1"
    and none: "open_handles (log w) = []"
    by blast
  have "length (open_handles (take 2 (log w))) \<le> 1"
  proof (cases "2 \<le> length (log w)")
    case True
    with one show ?thesis by blast
  next
    case False
    then have "take 2 (log w) = log w"
      by simp
    with none show ?thesis
      by simp
  qed
  with r none show ?thesis
    by blast
qed

section \<open>Determinism\<close>

text \<open>
  C8. Two runs on the same arguments, with file systems that agree on the files named,
  end with the same exit code and the same bytes on standard output, whatever the
  uninitialised buffer holds in either run.
\<close>

theorem run_deterministic:
  assumes "length line0 = MAX_LINE_LENGTH" and "length line0' = MAX_LINE_LENGTH"
    and "\<forall>p \<in> set args. fs p = fs' p"
  shows "\<exists>code w w'. run fs line0 args = Inr (code, w) \<and> run fs' line0' args = Inr (code, w') \<and>
           out w = out w'"
proof -
  let ?pre = "takeWhile (\<lambda>q. fs q \<noteq> None) args"
  let ?post = "dropWhile (\<lambda>q. fs q \<noteq> None) args"
  from assms(3) have "takeWhile (\<lambda>q. fs' q \<noteq> None) args = ?pre"
    by (auto intro: takeWhile_cong)
  moreover from assms(3) have "dropWhile (\<lambda>q. fs' q \<noteq> None) args = ?post"
    by (auto intro: dropWhile_cong)
  moreover have "printed fs' ?pre = printed fs ?pre"
    using assms(3) by (auto intro!: printed_cong [symmetric] dest: set_takeWhileD)
  ultimately show ?thesis
    using run_total [OF assms(1), of fs args] run_total [OF assms(2), of fs' args]
    by auto
qed

theorem run_deterministic_witness:
  "\<exists>code w w'. run fs_hello garbage [''a.txt'', ''b.txt''] = Inr (code, w) \<and>
     run fs_hello zeros [''a.txt'', ''b.txt''] = Inr (code, w') \<and> out w = out w'"
  using run_deterministic [OF garbage_length zeros_length, of "[''a.txt'', ''b.txt'']"
      fs_hello fs_hello]
  by simp

section \<open>NUL bytes\<close>

text \<open>
  C9. When every file opens and some file holds a NUL byte, the program still returns exit
  code 0, but its output is not the concatenation of the contents. Standard output is the
  concatenation of the writes, and there is one write for each load of the buffer (up to
  998 bytes of a file, ending after a newline or at the end of the file), which is
  exactly the bytes of that load before its first NUL: the NUL and the bytes of the load
  behind it are dropped, and no NUL reaches standard output.
\<close>

theorem nul_bytes_dropped:
  assumes "length line0 = MAX_LINE_LENGTH"
    and "map fs args = map Some cs"
    and "NUL \<in> set (concat cs)"
  shows "\<exists>w. run fs line0 args = Inr (0, w) \<and> NUL \<notin> set (out w) \<and>
           out w \<noteq> concat cs \<and> out w = concat (writes (log w)) \<and>
           writes_follow cs (writes (log w))"
proof -
  have "args = args @ []" and "\<forall>q \<in> set args. fs q \<noteq> None"
    using readable [OF assms(2)] by simp_all
  from run_result [OF assms(1) this]
  obtain ess where ess: "list_all2 (file_session fs) args ess"
    and r: "run fs line0 args = Inr (0, \<lparr>out = printed fs args, log = concat ess\<rparr>)"
    by auto
  have n: "NUL \<notin> set (printed fs args)"
    using shown_no_NUL by (auto simp add: printed_def)
  with assms(3) have "printed fs args \<noteq> concat cs"
    by metis
  moreover have "printed fs args = concat (writes (concat ess))"
    by (simp add: sessions_writes [OF ess] out_is_writes)
  moreover have "writes_follow cs (writes (concat ess))"
  proof -
    have "writes (concat ess) =
        concat (map (\<lambda>c. map (takeWhile (\<lambda>c. c \<noteq> NUL)) (chunks c)) (map (\<lambda>p. the (fs p)) args))"
      by (simp add: sessions_writes [OF ess] comp_def)
    then show ?thesis
      by (simp only: contents_the [OF assms(2)] writes_follow_files)
  qed
  ultimately show ?thesis
    using r n by simp
qed

text \<open>
  Of the file that holds \<^verbatim>\<open>ab\<close>, NUL, \<^verbatim>\<open>cd\<close> the theorem leaves one possible output:
  the single write \<^verbatim>\<open>ab\<close>.
\<close>

theorem nul_bytes_dropped_witness:
  "\<exists>w. run fs_nul garbage [''n.bin''] = Inr (0, w) \<and> NUL \<notin> set (out w) \<and>
     writes (log w) = [''ab''] \<and> out w = ''ab''"
proof -
  from nul_bytes_dropped [OF garbage_length, of fs_nul "[''n.bin'']" "[''ab'' @ NUL # ''cd'']"]
  obtain w where r: "run fs_nul garbage [''n.bin''] = Inr (0, w)"
    and n: "NUL \<notin> set (out w)"
    and o: "out w = concat (writes (log w))"
    and f: "writes_follow [''ab'' @ NUL # ''cd''] (writes (log w))"
    by (auto simp add: fs_nul_def)
  from f have "writes (log w) = [''ab'']"
    by (cases "writes (log w)") (simp_all add: writes_follow.simps load_size_def)
  with r n o show ?thesis
    by simp
qed

section \<open>The forced terminator cannot be observed\<close>

text \<open>
  C10. The program and the program without \<^verbatim>\<open>line[MAX_LINE_LENGTH-1] = 0;\<close> end with
  the same exit code and the same bytes on standard output, on every input: in the
  program without it, every buffer printed already holds the terminator of
  \<^verbatim>\<open>fgets\<close> among its first 999 bytes.
\<close>

theorem forced_terminator_unobservable:
  assumes "length line0 = MAX_LINE_LENGTH"
  shows "\<exists>code w w'. run fs line0 args = Inr (code, w) \<and>
           run_unforced fs line0 args = Inr (code, w') \<and> out w' = out w \<and>
           (\<forall>b. Printf_s b \<in> set (log w') \<longrightarrow> NUL \<in> set (take (MAX_LINE_LENGTH - 1) b))"
proof -
  from run_total [OF assms, of fs args] run_unforced_total [OF assms, of fs args]
  show ?thesis
    unfolding early_NUL_def by fastforce
qed

theorem forced_terminator_unobservable_witness:
  "\<exists>code w w'. run fs_long garbage [''long.txt''] = Inr (code, w) \<and>
     run_unforced fs_long garbage [''long.txt''] = Inr (code, w') \<and> out w' = out w"
  using forced_terminator_unobservable [OF garbage_length, of fs_long "[''long.txt'']"]
  by blast

end
